theory Spec2Isabelle
  imports Complex_Main
begin

section \<open>The per-client rate limiter of the Greenlight API\<close>

text \<open>
  The development follows \<^verbatim>\<open>cmd/api/middleware.go\<close>, function \<^verbatim>\<open>rateLimit\<close>: a map from
  client address to a \<^verbatim>\<open>Client\<close> (a limiter and a last-seen time), a request handler that
  works on the map under a mutex, and a background loop that removes idle entries.

  Instants and durations are measured in seconds and are real numbers; the rate is in
  tokens per second. The configuration is the \<^verbatim>\<open>limiter\<close> part of \<^verbatim>\<open>config\<close> in
  \<^verbatim>\<open>cmd/api/main.go\<close>; \<^verbatim>\<open>burst\<close> is a Go \<^verbatim>\<open>int\<close> and \<^verbatim>\<open>rps\<close> a \<^verbatim>\<open>float64\<close>, read from the
  command line with no validation, so both may be zero or negative.
\<close>

subsection \<open>Configuration\<close>

record limiter_config =
  rps :: real
  burst :: int
  enabled :: bool

subsection \<open>The token bucket\<close>

text \<open>
  Modelled from the spec: the limiter type behind \<^verbatim>\<open>rate.NewLimiter\<close> and \<^verbatim>\<open>Allow\<close>
  (package \<^verbatim>\<open>golang.org/x/time/rate\<close>) is not among the source files. The record and the
  two operations below follow sections 3 and 4.1 of the specification: the attributes
  \<^verbatim>\<open>capacity\<close>, \<^verbatim>\<open>refillRatePerSecond\<close>, \<^verbatim>\<open>tokens\<close>, \<^verbatim>\<open>lastRefillInstant\<close>; a bucket is created
  at full capacity; \<^verbatim>\<open>tryAdmit\<close> adds \<^verbatim>\<open>elapsed * refillRatePerSecond\<close> tokens capped at
  \<^verbatim>\<open>capacity\<close>, sets \<^verbatim>\<open>lastRefillInstant\<close> to now, and then admits and subtracts one token
  if \<^verbatim>\<open>tokens >= 1\<close>, and otherwise refuses with no further change.
\<close>

record TokenBucket =
  capacity :: int
  refillRatePerSecond :: real
  tokens :: real
  lastRefillInstant :: real

text \<open>
  Modelled from the spec: the bucket that \<^verbatim>\<open>rate.NewLimiter(r, b)\<close> stands for, initialised
  to full capacity. The instant of creation is its first \<^verbatim>\<open>lastRefillInstant\<close>.
\<close>

definition NewLimiter :: "real \<Rightarrow> int \<Rightarrow> real \<Rightarrow> TokenBucket" where
  "NewLimiter r b now =
     \<lparr>capacity = b, refillRatePerSecond = r, tokens = of_int b, lastRefillInstant = now\<rparr>"

text \<open>
  Modelled from the spec: the lazy refill that opens every admission check (the first
  half of \<^verbatim>\<open>tryAdmit\<close> in section 4.1).
\<close>

definition refill :: "real \<Rightarrow> TokenBucket \<Rightarrow> TokenBucket" where
  "refill now b =
     b\<lparr>tokens := min (of_int (capacity b))
                     (tokens b + (now - lastRefillInstant b) * refillRatePerSecond b),
       lastRefillInstant := now\<rparr>"

text \<open>
  Modelled from the spec: \<^verbatim>\<open>tryAdmit\<close> of section 4.1, the behaviour that the call
  \<^verbatim>\<open>limiter.Allow()\<close> of the handler stands for. The result is the answer and the bucket
  as the call leaves it.
\<close>

definition tryAdmit :: "real \<Rightarrow> TokenBucket \<Rightarrow> bool \<times> TokenBucket" where
  "tryAdmit now b =
     (let b' = refill now b
      in if tokens b' \<ge> 1 then (True, b'\<lparr>tokens := tokens b' - 1\<rparr>) else (False, b'))"

subsection \<open>The client registry and the request handler\<close>

record Client =
  limiter :: TokenBucket
  lastSeen :: real

type_synonym clients = "string \<rightharpoonup> Client"

datatype verdict = Allow | Deny

text \<open>
  The handler dereferences \<^verbatim>\<open>clients[ip]\<close> twice (lines 101 and 105). In Go a missing key
  yields a nil pointer and the dereference panics, so each lookup is a branch of the
  model.
\<close>

datatype error = NilPointerDereference

text \<open>
  The handler returned by \<^verbatim>\<open>rateLimit\<close> (lines 85 to 119), for a request whose address
  \<^verbatim>\<open>realip.FromRequest\<close> resolved to \<open>ip\<close>, running at the instant \<open>now\<close> (the section
  between \<^verbatim>\<open>mutex.Lock\<close> and \<^verbatim>\<open>mutex.Unlock\<close> is taken at one instant, read by
  \<^verbatim>\<open>time.Now()\<close> and by the limiter alike). \<open>Deny\<close> is the branch that sends the 429
  response and returns; \<open>Allow\<close> is the call of the next handler. The zero value of
  \<^verbatim>\<open>lastSeen\<close> in a new \<^verbatim>\<open>Client\<close> is instant 0.
\<close>

definition rateLimit ::
  "limiter_config \<Rightarrow> string \<Rightarrow> real \<Rightarrow> clients \<Rightarrow> error + (verdict \<times> clients)" where
  "rateLimit cfg ip now cl =
     (if enabled cfg then
        let cl1 = (if cl ip = None
                   then cl(ip \<mapsto> \<lparr>limiter = NewLimiter (rps cfg) (burst cfg) now, lastSeen = 0\<rparr>)
                   else cl)
        in case cl1 ip of
             None \<Rightarrow> Inl NilPointerDereference
           | Some c \<Rightarrow>
               let cl2 = cl1(ip \<mapsto> c\<lparr>lastSeen := now\<rparr>)
               in case cl2 ip of
                    None \<Rightarrow> Inl NilPointerDereference
                  | Some c2 \<Rightarrow>
                      (case tryAdmit now (limiter c2) of
                         (ok, l') \<Rightarrow>
                           let cl3 = cl2(ip \<mapsto> c2\<lparr>limiter := l'\<rparr>)
                           in if \<not> ok then Inr (Deny, cl3) else Inr (Allow, cl3))
      else Inr (Allow, cl))"

subsection \<open>The background sweep\<close>

definition minute :: real where
  "minute = 60"

text \<open>
  One pass of the loop body (lines 70 to 81) at the instant \<open>now\<close>: every entry with
  \<^verbatim>\<open>time.Since(client.lastSeen) > 3*time.Minute\<close> is deleted, every other entry is kept.
\<close>

definition sweep :: "real \<Rightarrow> clients \<Rightarrow> clients" where
  "sweep now cl =
     (\<lambda>ip. case cl ip of
             None \<Rightarrow> None
           | Some client \<Rightarrow> if now - lastSeen client > 3 * minute then None else Some client)"

text \<open>
  The goroutine of lines 64 to 83: \<^verbatim>\<open>for { time.Sleep(time.Minute); ... }\<close>. The state of
  the loop is the clock and the map. The loop has no \<^verbatim>\<open>break\<close> and no \<^verbatim>\<open>return\<close>; a run
  that never returns has the value \<open>None\<close>.
\<close>

definition evictor_iteration :: "real \<times> clients \<Rightarrow> real \<times> clients" where
  "evictor_iteration w = (let now = fst w + minute in (now, sweep now (snd w)))"

partial_function (option) evictor :: "real \<times> clients \<Rightarrow> unit option" where
  "evictor w = evictor (evictor_iteration w)"

subsection \<open>Runs of the registry\<close>

text \<open>
  What happens to the registry over time is a list of events: a request from an address
  at an instant, or a pass of the sweep at an instant. The mutex makes each of them
  atomic with respect to the others. A run collects the verdict of every request with
  its address and stops at the first panic.
\<close>

datatype event = Request string real | Sweep real

fun instant :: "event \<Rightarrow> real" where
  "instant (Request ip t) = t"
| "instant (Sweep t) = t"

fun run :: "limiter_config \<Rightarrow> event list \<Rightarrow> clients \<Rightarrow> error + ((string \<times> verdict) list \<times> clients)" where
  "run cfg [] cl = Inr ([], cl)"
| "run cfg (Request ip t # es) cl =
     (case rateLimit cfg ip t cl of
        Inl e \<Rightarrow> Inl e
      | Inr (v, cl') \<Rightarrow>
          (case run cfg es cl' of
             Inl e \<Rightarrow> Inl e
           | Inr (vs, cl'') \<Rightarrow> Inr ((ip, v) # vs, cl'')))"
| "run cfg (Sweep t # es) cl = run cfg es (sweep t cl)"

text \<open>
  A sequence of admission checks against one bucket, at the given instants, and the
  answers in order.
\<close>

fun checks :: "real list \<Rightarrow> TokenBucket \<Rightarrow> bool list" where
  "checks [] b = []"
| "checks (t # ts) b = fst (tryAdmit t b) # checks ts (snd (tryAdmit t b))"

text \<open>
  The bucket that a request from \<open>ip\<close> at \<open>now\<close> is checked against: the one of the entry
  under \<open>ip\<close>, or a new one when there is no entry (lines 96 to 98).
\<close>

definition bucket_for :: "limiter_config \<Rightarrow> real \<Rightarrow> clients \<Rightarrow> string \<Rightarrow> TokenBucket" where
  "bucket_for cfg now cl ip =
     (case cl ip of None \<Rightarrow> NewLimiter (rps cfg) (burst cfg) now | Some c \<Rightarrow> limiter c)"

text \<open>Whether an event is a request of the address \<open>a\<close>.\<close>

fun from_ip :: "string \<Rightarrow> event \<Rightarrow> bool" where
  "from_ip a (Request ip t) = (ip = a)"
| "from_ip a (Sweep t) = False"

text \<open>The addresses of the requests of a trace, in order.\<close>

fun addresses :: "event list \<Rightarrow> string list" where
  "addresses [] = []"
| "addresses (Request ip t # es) = ip # addresses es"
| "addresses (Sweep t # es) = addresses es"

text \<open>
  The invariant of the registry at an instant \<open>t\<close> of the clock: every bucket has the
  capacity and the rate of the configuration, holds between zero and that many tokens,
  and was last refilled no later than \<open>t\<close>.
\<close>

definition registry_ok :: "limiter_config \<Rightarrow> real \<Rightarrow> clients \<Rightarrow> bool" where
  "registry_ok cfg t cl \<longleftrightarrow>
     (\<forall>ip c. cl ip = Some c \<longrightarrow>
        0 \<le> tokens (limiter c) \<and> tokens (limiter c) \<le> of_int (burst cfg) \<and>
        capacity (limiter c) = burst cfg \<and> refillRatePerSecond (limiter c) = rps cfg \<and>
        lastRefillInstant (limiter c) \<le> t)"

section \<open>Properties\<close>

subsection \<open>The handler as one update of the registry\<close>

lemma Client_updates: "(c::Client)\<lparr>lastSeen := t, limiter := l\<rparr> = \<lparr>limiter = l, lastSeen = t\<rparr>"
  by (cases c) simp

lemma rateLimit_enabled:
  "enabled cfg \<Longrightarrow>
   rateLimit cfg ip now cl =
     Inr (if fst (tryAdmit now (bucket_for cfg now cl ip)) then Allow else Deny,
          cl(ip \<mapsto> \<lparr>limiter = snd (tryAdmit now (bucket_for cfg now cl ip)), lastSeen = now\<rparr>))"
  by (cases "cl ip")
    (simp_all add: rateLimit_def bucket_for_def Let_def Client_updates split: prod.splits)

lemma rateLimit_disabled: "\<not> enabled cfg \<Longrightarrow> rateLimit cfg ip now cl = Inr (Allow, cl)"
  by (simp add: rateLimit_def)

lemma rateLimit_total: "\<exists>v cl'. rateLimit cfg ip now cl = Inr (v, cl')"
  by (cases "enabled cfg") (simp_all add: rateLimit_enabled rateLimit_disabled)

lemma run_Request:
  "rateLimit cfg ip t cl = Inr (v, cl') \<Longrightarrow> run cfg es cl' = Inr (vs, cl'') \<Longrightarrow>
   run cfg (Request ip t # es) cl = Inr ((ip, v) # vs, cl'')"
  by simp

lemma run_total: "\<exists>vs cl'. run cfg es cl = Inr (vs, cl')"
proof (induction es arbitrary: cl)
  case Nil
  show ?case by simp
next
  case (Cons e es)
  show ?case
  proof (cases e)
    case (Request ip t)
    obtain v cl1 where h: "rateLimit cfg ip t cl = Inr (v, cl1)"
      using rateLimit_total by blast
    obtain vs cl2 where r: "run cfg es cl1 = Inr (vs, cl2)"
      using Cons.IH by blast
    show ?thesis
      using run_Request [OF h r] by (auto simp: Request)
  next
    case (Sweep t)
    then show ?thesis using Cons.IH [of "sweep t cl"] by simp
  qed
qed

subsection \<open>The limiter switched off\<close>

text \<open>
  C7: with \<^verbatim>\<open>enabled = false\<close> every request is allowed, whatever the address, the
  instant and the registry, and the registry is left as it was: no bucket is created,
  read or changed.
\<close>

theorem disabled_always_allows:
  "\<not> enabled cfg \<Longrightarrow> rateLimit cfg ip now cl = Inr (Allow, cl)"
  by (simp add: rateLimit_def)

theorem disabled_always_allows_witness:
  "\<not> enabled \<lparr>rps = 2, burst = 4, enabled = False\<rparr> \<and>
   rateLimit \<lparr>rps = 2, burst = 4, enabled = False\<rparr> ''192.0.2.7'' 5 Map.empty
     = Inr (Allow, Map.empty)"
  using disabled_always_allows [of "\<lparr>rps = 2, burst = 4, enabled = False\<rparr>" "''192.0.2.7''" 5 Map.empty]
  by simp

subsection \<open>One admission check\<close>

lemma tokens_refill:
  "tokens (refill t b) =
     min (of_int (capacity b)) (tokens b + (t - lastRefillInstant b) * refillRatePerSecond b)"
  by (simp add: refill_def)

lemma refill_fields:
  "capacity (refill t b) = capacity b"
  "refillRatePerSecond (refill t b) = refillRatePerSecond b"
  "lastRefillInstant (refill t b) = t"
  by (simp_all add: refill_def)

lemma tryAdmit_fst: "fst (tryAdmit t b) \<longleftrightarrow> 1 \<le> tokens (refill t b)"
  by (simp add: tryAdmit_def Let_def)

lemma tryAdmit_tokens:
  "tokens (snd (tryAdmit t b)) =
     (if 1 \<le> tokens (refill t b) then tokens (refill t b) - 1 else tokens (refill t b))"
  by (simp add: tryAdmit_def Let_def)

lemma tryAdmit_fields:
  "capacity (snd (tryAdmit t b)) = capacity b"
  "refillRatePerSecond (snd (tryAdmit t b)) = refillRatePerSecond b"
  "lastRefillInstant (snd (tryAdmit t b)) = t"
  by (simp_all add: tryAdmit_def Let_def refill_fields)

lemma NewLimiter_fields:
  "capacity (NewLimiter r b t) = b"
  "refillRatePerSecond (NewLimiter r b t) = r"
  "tokens (NewLimiter r b t) = of_int b"
  "lastRefillInstant (NewLimiter r b t) = t"
  by (simp_all add: NewLimiter_def)

lemma refill_bounds:
  assumes "0 \<le> refillRatePerSecond b" "lastRefillInstant b \<le> t"
    and "tokens b \<le> of_int (capacity b)"
  shows "tokens b \<le> tokens (refill t b)"
    and "tokens (refill t b) \<le> tokens b + (t - lastRefillInstant b) * refillRatePerSecond b"
    and "tokens (refill t b) \<le> of_int (capacity b)"
proof -
  have "0 \<le> (t - lastRefillInstant b) * refillRatePerSecond b"
    using assms(1,2) by simp
  then show "tokens b \<le> tokens (refill t b)"
    using assms(3) by (simp add: tokens_refill)
  show "tokens (refill t b) \<le> tokens b + (t - lastRefillInstant b) * refillRatePerSecond b"
    by (simp add: tokens_refill)
  show "tokens (refill t b) \<le> of_int (capacity b)"
    by (simp add: tokens_refill)
qed

subsection \<open>A burst against one bucket\<close>

lemma checks_burst:
  assumes "0 \<le> refillRatePerSecond b" "tokens b \<le> of_int (capacity b)"
    and "sorted (lastRefillInstant b # ts)" "length ts = Suc k"
    and "real k \<le> tokens b"
    and "tokens b + (last ts - lastRefillInstant b) * refillRatePerSecond b < real k + 1"
  shows "checks ts b = replicate k True @ [False]"
  using assms
proof (induction k arbitrary: b ts)
  case 0
  then obtain t where ts: "ts = [t]"
    by (cases ts) auto
  have "tokens (refill t b) < 1"
    using 0 refill_bounds(2) [of b t] by (simp add: ts)
  then show ?case
    by (simp add: ts tryAdmit_fst)
next
  case (Suc k)
  then obtain t ts' where ts: "ts = t # ts'" and len: "length ts' = Suc k"
    by (cases ts) auto
  let ?b' = "snd (tryAdmit t b)"
  have le: "lastRefillInstant b \<le> t"
    using Suc.prems(3) by (simp add: ts)
  have ne: "ts' \<noteq> []"
    using len by auto
  have lo: "tokens b \<le> tokens (refill t b)"
    and hi: "tokens (refill t b) \<le> tokens b + (t - lastRefillInstant b) * refillRatePerSecond b"
    and cap: "tokens (refill t b) \<le> of_int (capacity b)"
    using refill_bounds [OF Suc.prems(1) le Suc.prems(2)] by blast+
  have one: "1 \<le> tokens (refill t b)"
    using lo Suc.prems(5) by simp
  have tok: "tokens ?b' = tokens (refill t b) - 1"
    using one by (simp add: tryAdmit_tokens)
  have "checks ts' ?b' = replicate k True @ [False]"
  proof (rule Suc.IH)
    show "0 \<le> refillRatePerSecond ?b'"
      using Suc.prems(1) by (simp add: tryAdmit_fields)
    show "tokens ?b' \<le> of_int (capacity ?b')"
      using cap by (simp add: tok tryAdmit_fields)
    show "sorted (lastRefillInstant ?b' # ts')"
      using Suc.prems(3) by (simp add: ts tryAdmit_fields)
    show "length ts' = Suc k" by (rule len)
    show "real k \<le> tokens ?b'"
      using lo Suc.prems(5) by (simp add: tok)
    have "tokens ?b' + (last ts' - t) * refillRatePerSecond b
          \<le> tokens b + (last ts' - lastRefillInstant b) * refillRatePerSecond b - 1"
      using hi by (simp add: tok algebra_simps)
    then show "tokens ?b' + (last ts' - lastRefillInstant ?b') * refillRatePerSecond ?b' < real k + 1"
      using Suc.prems(6) ne by (simp add: ts tryAdmit_fields)
  qed
  then show ?case
    using one by (simp add: ts tryAdmit_fst)
qed

subsection \<open>Requests of one client\<close>

lemma run_requests_known:
  assumes "enabled cfg" "cl ip = Some c"
  shows "\<exists>cl'. run cfg (map (Request ip) ts) cl =
           Inr (map (\<lambda>ok. (ip, if ok then Allow else Deny)) (checks ts (limiter c)), cl')"
  using assms(2)
proof (induction ts arbitrary: cl c)
  case Nil
  show ?case by simp
next
  case (Cons t ts)
  let ?r = "tryAdmit t (limiter c)"
  let ?cl = "cl(ip \<mapsto> \<lparr>limiter = snd ?r, lastSeen = t\<rparr>)"
  have h: "rateLimit cfg ip t cl = Inr (if fst ?r then Allow else Deny, ?cl)"
    using assms(1) Cons.prems by (simp add: rateLimit_enabled bucket_for_def)
  have "\<exists>cl'. run cfg (map (Request ip) ts) ?cl =
      Inr (map (\<lambda>ok. (ip, if ok then Allow else Deny))
             (checks ts (limiter \<lparr>limiter = snd ?r, lastSeen = t\<rparr>)), cl')"
    by (rule Cons.IH) simp
  then obtain cl' where r: "run cfg (map (Request ip) ts) ?cl =
      Inr (map (\<lambda>ok. (ip, if ok then Allow else Deny)) (checks ts (snd ?r)), cl')"
    by auto
  show ?case
    using run_Request [OF h r] by auto
qed

lemma run_requests_fresh:
  assumes "enabled cfg" "cl ip = None"
  shows "\<exists>cl'. run cfg (map (Request ip) (t # ts)) cl =
           Inr (map (\<lambda>ok. (ip, if ok then Allow else Deny))
                  (checks (t # ts) (NewLimiter (rps cfg) (burst cfg) t)), cl')"
proof -
  let ?r = "tryAdmit t (NewLimiter (rps cfg) (burst cfg) t)"
  let ?cl = "cl(ip \<mapsto> \<lparr>limiter = snd ?r, lastSeen = t\<rparr>)"
  have h: "rateLimit cfg ip t cl = Inr (if fst ?r then Allow else Deny, ?cl)"
    using assms by (simp add: rateLimit_enabled bucket_for_def)
  have "\<exists>cl'. run cfg (map (Request ip) ts) ?cl =
      Inr (map (\<lambda>ok. (ip, if ok then Allow else Deny))
             (checks ts (limiter \<lparr>limiter = snd ?r, lastSeen = t\<rparr>)), cl')"
    by (rule run_requests_known [OF assms(1)]) simp
  then obtain cl' where r: "run cfg (map (Request ip) ts) ?cl =
      Inr (map (\<lambda>ok. (ip, if ok then Allow else Deny)) (checks ts (snd ?r)), cl')"
    by auto
  show ?thesis
    using run_Request [OF h r] by auto
qed

subsection \<open>The burst of a new client\<close>

text \<open>
  C1: a client with no entry sends \<open>B + 1\<close> requests, the limiter being enabled with burst
  \<open>B\<close> and a rate \<open>R\<close> that is not negative. The instants do not decrease, and the whole
  sequence is so short that less than one token is refilled between the first request
  and the last (\<open>(last - first) * R < 1\<close>; requests at one instant are the case of
  elapsed time zero). Then exactly the first \<open>B\<close> requests are allowed and request
  \<open>B + 1\<close> is denied.
\<close>

theorem fresh_client_burst:
  assumes "enabled cfg" "burst cfg = int B" "0 \<le> rps cfg" "cl ip = None"
    and "sorted ts" "length ts = Suc B" "(last ts - hd ts) * rps cfg < 1"
  shows "\<exists>cl'. run cfg (map (Request ip) ts) cl =
           Inr (replicate B (ip, Allow) @ [(ip, Deny)], cl')"
proof -
  obtain t ts' where ts: "ts = t # ts'"
    using assms(6) by (cases ts) auto
  let ?b = "NewLimiter (rps cfg) (burst cfg) t"
  have "checks ts ?b = replicate B True @ [False]"
  proof (rule checks_burst)
    show "0 \<le> refillRatePerSecond ?b"
      using assms(3) by (simp add: NewLimiter_fields)
    show "tokens ?b \<le> of_int (capacity ?b)"
      by (simp add: NewLimiter_fields)
    show "sorted (lastRefillInstant ?b # ts)"
      using assms(5) by (simp add: NewLimiter_fields ts)
    show "length ts = Suc B" by (rule assms(6))
    show "real B \<le> tokens ?b"
      using assms(2) by (simp add: NewLimiter_fields)
    show "tokens ?b + (last ts - lastRefillInstant ?b) * refillRatePerSecond ?b < real B + 1"
      using assms(2,7) by (simp add: NewLimiter_fields ts)
  qed
  then show ?thesis
    using run_requests_fresh [of cfg cl ip t ts'] assms(1,4) by (simp add: ts)
qed

theorem fresh_client_burst_witness:
  "enabled \<lparr>rps = 2, burst = 4, enabled = True\<rparr> \<and>
   burst \<lparr>rps = 2, burst = 4, enabled = True\<rparr> = int 4 \<and>
   0 \<le> rps \<lparr>rps = 2, burst = 4, enabled = True\<rparr> \<and>
   (Map.empty :: clients) ''192.0.2.7'' = None \<and>
   sorted [10, 10.1, 10.2, 10.3, 10.4 :: real] \<and>
   length [10, 10.1, 10.2, 10.3, 10.4 :: real] = Suc 4 \<and>
   (last [10, 10.1, 10.2, 10.3, 10.4] - hd [10, 10.1, 10.2, 10.3, 10.4])
     * rps \<lparr>rps = 2, burst = 4, enabled = True\<rparr> < 1 \<and>
   (\<exists>cl'. run \<lparr>rps = 2, burst = 4, enabled = True\<rparr>
            (map (Request ''192.0.2.7'') [10, 10.1, 10.2, 10.3, 10.4]) Map.empty =
          Inr (replicate 4 (''192.0.2.7'', Allow) @ [(''192.0.2.7'', Deny)], cl'))"
  using fresh_client_burst [of "\<lparr>rps = 2, burst = 4, enabled = True\<rparr>" 4 Map.empty
      "''192.0.2.7''" "[10, 10.1, 10.2, 10.3, 10.4]"]
  by simp

subsection \<open>The token count stays between zero and the capacity\<close>

lemma tryAdmit_bounds:
  assumes "0 \<le> refillRatePerSecond b" "lastRefillInstant b \<le> t"
    and "0 \<le> tokens b" "tokens b \<le> of_int (capacity b)"
  shows "0 \<le> tokens (snd (tryAdmit t b))"
    and "tokens (snd (tryAdmit t b)) \<le> of_int (capacity b)"
proof -
  have lo: "tokens b \<le> tokens (refill t b)"
    and cap: "tokens (refill t b) \<le> of_int (capacity b)"
    using refill_bounds [OF assms(1,2,4)] by blast+
  show "0 \<le> tokens (snd (tryAdmit t b))"
    using lo assms(3) by (simp add: tryAdmit_tokens)
  show "tokens (snd (tryAdmit t b)) \<le> of_int (capacity b)"
    using cap by (simp add: tryAdmit_tokens)
qed

lemma registry_ok_later: "registry_ok cfg t cl \<Longrightarrow> t \<le> t' \<Longrightarrow> registry_ok cfg t' cl"
  by (fastforce simp: registry_ok_def)

lemma registry_ok_sweep: "registry_ok cfg t cl \<Longrightarrow> registry_ok cfg t (sweep now cl)"
  by (auto simp: registry_ok_def sweep_def split: option.splits if_splits)

lemma bucket_for_ok:
  assumes "0 \<le> burst cfg" "registry_ok cfg t cl"
  shows "0 \<le> tokens (bucket_for cfg t cl ip)"
    and "tokens (bucket_for cfg t cl ip) \<le> of_int (burst cfg)"
    and "capacity (bucket_for cfg t cl ip) = burst cfg"
    and "refillRatePerSecond (bucket_for cfg t cl ip) = rps cfg"
    and "lastRefillInstant (bucket_for cfg t cl ip) \<le> t"
  using assms
  by (auto simp: bucket_for_def registry_ok_def NewLimiter_fields split: option.splits)

lemma registry_ok_rateLimit:
  assumes "0 \<le> burst cfg" "0 \<le> rps cfg" "registry_ok cfg t cl"
    and "rateLimit cfg ip t cl = Inr (v, cl')"
  shows "registry_ok cfg t cl'"
proof (cases "enabled cfg")
  case False
  then show ?thesis
    using assms(3,4) by (simp add: rateLimit_disabled)
next
  case True
  let ?b = "bucket_for cfg t cl ip"
  have cl': "cl' = cl(ip \<mapsto> \<lparr>limiter = snd (tryAdmit t ?b), lastSeen = t\<rparr>)"
    using assms(4) True by (simp add: rateLimit_enabled)
  note b = bucket_for_ok [OF assms(1,3), of ip]
  have "0 \<le> tokens (snd (tryAdmit t ?b))"
    and "tokens (snd (tryAdmit t ?b)) \<le> of_int (capacity ?b)"
    using tryAdmit_bounds [of ?b t] b assms(2) by simp_all
  then show ?thesis
    using assms(3) b(3,4) by (auto simp: registry_ok_def cl' tryAdmit_fields)
qed

lemma registry_ok_run:
  assumes "0 \<le> burst cfg" "0 \<le> rps cfg"
  shows "registry_ok cfg t cl \<Longrightarrow> sorted (t # map instant es) \<Longrightarrow>
         run cfg es cl = Inr (vs, cl') \<Longrightarrow> \<exists>t'. registry_ok cfg t' cl'"
proof (induction es arbitrary: t cl vs)
  case Nil
  then show ?case by auto
next
  case (Cons e es)
  have le: "t \<le> instant e" and srt: "sorted (instant e # map instant es)"
    using Cons.prems(2) by simp_all
  have ok: "registry_ok cfg (instant e) cl"
    using registry_ok_later [OF Cons.prems(1) le] .
  show ?case
  proof (cases e)
    case (Request ip u)
    obtain v cl1 where h: "rateLimit cfg ip u cl = Inr (v, cl1)"
      using rateLimit_total by blast
    obtain vs1 cl2 where r: "run cfg es cl1 = Inr (vs1, cl2)"
      using run_total by blast
    have "cl2 = cl'"
      using Cons.prems(3) run_Request [OF h r] by (simp add: Request)
    moreover have "registry_ok cfg u cl1"
      using registry_ok_rateLimit [OF assms _ h] ok by (simp add: Request)
    ultimately show ?thesis
      using Cons.IH [of u cl1 vs1] srt r by (simp add: Request)
  next
    case (Sweep u)
    have "registry_ok cfg u (sweep u cl)"
      using registry_ok_sweep ok by (simp add: Sweep)
    then show ?thesis
      using Cons.IH [of u "sweep u cl" vs] srt Cons.prems(3) by (simp add: Sweep)
  qed
qed

text \<open>
  C3: the limiter is configured with a burst and a rate that are not negative, the
  registry starts empty, and requests of any clients and passes of the sweep follow one
  another at instants that do not decrease, however far apart. Then the run ends without
  a panic, and in the registry it leaves every bucket holds at least zero tokens and at
  most its capacity, which is the configured burst. Every prefix of a trace is such a
  trace, so the bounds hold after every single event.
\<close>

theorem tokens_between_zero_and_capacity:
  assumes "0 \<le> burst cfg" "0 \<le> rps cfg" "sorted (map instant es)"
  shows "\<exists>vs cl. run cfg es Map.empty = Inr (vs, cl) \<and>
           (\<forall>ip c. cl ip = Some c \<longrightarrow>
              0 \<le> tokens (limiter c) \<and> tokens (limiter c) \<le> of_int (capacity (limiter c)) \<and>
              capacity (limiter c) = burst cfg)"
proof -
  obtain vs cl where r: "run cfg es Map.empty = Inr (vs, cl)"
    using run_total by blast
  have "\<exists>t'. registry_ok cfg t' cl"
  proof (cases es)
    case Nil
    then show ?thesis using r by (auto simp: registry_ok_def)
  next
    case (Cons e es')
    have "registry_ok cfg (instant e) Map.empty"
      by (simp add: registry_ok_def)
    moreover have "sorted (instant e # map instant es)"
      using assms(3) by (simp add: Cons)
    ultimately show ?thesis
      using registry_ok_run [OF assms(1,2) _ _ r] by blast
  qed
  then show ?thesis
    using r by (auto simp: registry_ok_def)
qed

theorem tokens_between_zero_and_capacity_witness:
  "0 \<le> burst \<lparr>rps = 2, burst = 4, enabled = True\<rparr> \<and>
   0 \<le> rps \<lparr>rps = 2, burst = 4, enabled = True\<rparr> \<and>
   sorted (map instant [Request ''192.0.2.7'' 1, Sweep 60, Request ''192.0.2.7'' 100]) \<and>
   (\<exists>vs cl. run \<lparr>rps = 2, burst = 4, enabled = True\<rparr>
               [Request ''192.0.2.7'' 1, Sweep 60, Request ''192.0.2.7'' 100] Map.empty
             = Inr (vs, cl) \<and>
      (\<forall>ip c. cl ip = Some c \<longrightarrow>
         0 \<le> tokens (limiter c) \<and> tokens (limiter c) \<le> of_int (capacity (limiter c)) \<and>
         capacity (limiter c) = burst \<lparr>rps = 2, burst = 4, enabled = True\<rparr>))"
  using tokens_between_zero_and_capacity [of "\<lparr>rps = 2, burst = 4, enabled = True\<rparr>"
      "[Request ''192.0.2.7'' 1, Sweep 60, Request ''192.0.2.7'' 100]"]
  by simp

subsection \<open>A burst of zero\<close>

lemma zero_capacity_denies: "capacity b = 0 \<Longrightarrow> \<not> fst (tryAdmit t b)"
  by (simp add: tryAdmit_fst tokens_refill)

lemma run_zero_burst:
  assumes "enabled cfg" "burst cfg = 0"
  shows "(\<forall>ip c. cl ip = Some c \<longrightarrow> capacity (limiter c) = 0) \<Longrightarrow>
         \<exists>cl'. run cfg es cl = Inr (map (\<lambda>ip. (ip, Deny)) (addresses es), cl')"
proof (induction es arbitrary: cl)
  case Nil
  show ?case by simp
next
  case (Cons e es)
  show ?case
  proof (cases e)
    case (Request ip t)
    let ?b = "bucket_for cfg t cl ip"
    let ?cl = "cl(ip \<mapsto> \<lparr>limiter = snd (tryAdmit t ?b), lastSeen = t\<rparr>)"
    have cap: "capacity ?b = 0"
      using Cons.prems assms(2)
      by (auto simp: bucket_for_def NewLimiter_fields split: option.splits)
    then have h: "rateLimit cfg ip t cl = Inr (Deny, ?cl)"
      using assms(1) zero_capacity_denies [of ?b t] by (simp add: rateLimit_enabled)
    have "\<forall>a c. ?cl a = Some c \<longrightarrow> capacity (limiter c) = 0"
      using Cons.prems cap by (auto simp: tryAdmit_fields)
    from Cons.IH [OF this]
    obtain cl' where r: "run cfg es ?cl = Inr (map (\<lambda>ip. (ip, Deny)) (addresses es), cl')"
      by blast
    show ?thesis
      using run_Request [OF h r] by (simp add: Request)
  next
    case (Sweep t)
    have "\<forall>a c. sweep t cl a = Some c \<longrightarrow> capacity (limiter c) = 0"
      using Cons.prems by (auto simp: sweep_def split: option.splits if_splits)
    from Cons.IH [OF this] show ?thesis
      by (simp add: Sweep)
  qed
qed

text \<open>
  C10: the configuration record takes any integer as burst, zero included. With the
  limiter enabled and a burst of zero, every request of every trace that starts on the
  empty registry is denied, the first request of a client that was never seen included,
  whatever the rate and the instants.
\<close>

theorem zero_burst_denies_everything:
  assumes "enabled cfg" "burst cfg = 0"
  shows "\<exists>cl'. run cfg es Map.empty = Inr (map (\<lambda>ip. (ip, Deny)) (addresses es), cl')"
  using run_zero_burst [OF assms, of Map.empty es] by simp

theorem zero_burst_denies_everything_witness:
  "enabled \<lparr>rps = 2, burst = 0, enabled = True\<rparr> \<and>
   burst \<lparr>rps = 2, burst = 0, enabled = True\<rparr> = 0 \<and>
   (\<exists>cl'. run \<lparr>rps = 2, burst = 0, enabled = True\<rparr>
             [Request ''192.0.2.7'' 1, Request ''198.51.100.9'' 2, Request ''192.0.2.7'' 3600]
             Map.empty
           = Inr (map (\<lambda>ip. (ip, Deny))
                    (addresses
                       [Request ''192.0.2.7'' 1, Request ''198.51.100.9'' 2,
                        Request ''192.0.2.7'' 3600]), cl'))"
  using zero_burst_denies_everything [of "\<lparr>rps = 2, burst = 0, enabled = True\<rparr>"
      "[Request ''192.0.2.7'' 1, Request ''198.51.100.9'' 2, Request ''192.0.2.7'' 3600]"]
  by simp

subsection \<open>Any address, the empty one included\<close>

text \<open>
  C9: the handler takes whatever string the address resolved to, the empty string
  included, as the key of the map. For every such string the handler ends without a
  panic. With the limiter enabled the verdict is never a bypass: it is the answer of the
  bucket stored under that very string (a new one if there is none), the entry under
  that string is written back, and the next request with the same string is checked
  against the bucket this one left.
\<close>

theorem any_identity_is_limited:
  "(\<exists>v cl'. rateLimit cfg ip now cl = Inr (v, cl')) \<and>
   (enabled cfg \<longrightarrow>
      (\<exists>cl'. rateLimit cfg ip now cl =
          Inr (if fst (tryAdmit now (bucket_for cfg now cl ip)) then Allow else Deny, cl') \<and>
        cl' ip = Some \<lparr>limiter = snd (tryAdmit now (bucket_for cfg now cl ip)), lastSeen = now\<rparr> \<and>
        bucket_for cfg later cl' ip = snd (tryAdmit now (bucket_for cfg now cl ip))))"
  by (cases "enabled cfg") (simp_all add: rateLimit_enabled rateLimit_disabled bucket_for_def)

theorem any_identity_is_limited_witness:
  "(\<exists>v cl'. rateLimit \<lparr>rps = 2, burst = 1, enabled = True\<rparr> '''' 7 Map.empty = Inr (v, cl')) \<and>
   enabled \<lparr>rps = 2, burst = 1, enabled = True\<rparr> \<and>
      (\<exists>cl'. rateLimit \<lparr>rps = 2, burst = 1, enabled = True\<rparr> '''' 7 Map.empty =
          Inr (if fst (tryAdmit 7 (bucket_for \<lparr>rps = 2, burst = 1, enabled = True\<rparr> 7 Map.empty ''''))
               then Allow else Deny, cl') \<and>
        cl' '''' = Some \<lparr>limiter = snd (tryAdmit 7
                     (bucket_for \<lparr>rps = 2, burst = 1, enabled = True\<rparr> 7 Map.empty '''')),
                   lastSeen = 7\<rparr> \<and>
        bucket_for \<lparr>rps = 2, burst = 1, enabled = True\<rparr> 8 cl' '''' =
          snd (tryAdmit 7 (bucket_for \<lparr>rps = 2, burst = 1, enabled = True\<rparr> 7 Map.empty '''')))"
  using any_identity_is_limited [of "\<lparr>rps = 2, burst = 1, enabled = True\<rparr>" "''''" 7 Map.empty 8]
  by simp

subsection \<open>Eviction of an idle entry\<close>

lemma sweep_removes: "cl ip = Some c \<Longrightarrow> now - lastSeen c > 3 * minute \<Longrightarrow> sweep now cl ip = None"
  by (simp add: sweep_def)

lemma sweep_keeps: "cl ip = Some c \<Longrightarrow> now - lastSeen c \<le> 3 * minute \<Longrightarrow> sweep now cl ip = Some c"
  by (simp add: sweep_def)

lemma new_bucket_admits:
  "fst (tryAdmit t (NewLimiter r b t)) \<longleftrightarrow> 1 \<le> b"
  by (simp add: tryAdmit_fst tokens_refill NewLimiter_fields)

lemma new_bucket_tokens:
  "1 \<le> b \<Longrightarrow> tokens (snd (tryAdmit t (NewLimiter r b t))) = of_int b - 1"
  by (simp add: tryAdmit_tokens tokens_refill NewLimiter_fields)

text \<open>
  C4: an entry last seen more than three minutes before a pass of the sweep is removed by
  that pass. The next request of that address, at any instant \<open>t\<close>, then gets the verdict
  and leaves the entry that the same request gets and leaves on the empty registry: the
  bucket is a new one, created full (\<open>burst\<close> tokens) and charged for this one request,
  so with a burst of at least one the request is allowed and \<open>burst - 1\<close> tokens remain,
  whatever the removed bucket held.
\<close>

theorem idle_entry_is_evicted:
  assumes "cl ip = Some c" "now - lastSeen c > 3 * minute" "enabled cfg"
  shows "sweep now cl ip = None \<and>
         (\<exists>v cl1 cl2 c'.
            rateLimit cfg ip t (sweep now cl) = Inr (v, cl1) \<and>
            rateLimit cfg ip t Map.empty = Inr (v, cl2) \<and>
            cl1 ip = Some c' \<and> cl2 ip = Some c' \<and>
            limiter c' = snd (tryAdmit t (NewLimiter (rps cfg) (burst cfg) t)) \<and>
            tokens (NewLimiter (rps cfg) (burst cfg) t) = of_int (burst cfg) \<and>
            (1 \<le> burst cfg \<longrightarrow> v = Allow \<and> tokens (limiter c') = of_int (burst cfg) - 1))"
proof -
  have gone: "sweep now cl ip = None"
    using assms(1,2) by (rule sweep_removes)
  then have "bucket_for cfg t (sweep now cl) ip = NewLimiter (rps cfg) (burst cfg) t"
    by (simp add: bucket_for_def)
  moreover have "bucket_for cfg t Map.empty ip = NewLimiter (rps cfg) (burst cfg) t"
    by (simp add: bucket_for_def)
  ultimately show ?thesis
    using gone assms(3)
    by (simp add: rateLimit_enabled new_bucket_admits new_bucket_tokens NewLimiter_fields)
qed

theorem idle_entry_is_evicted_witness:
  "[''192.0.2.7'' \<mapsto> \<lparr>limiter = \<lparr>capacity = 4, refillRatePerSecond = 2, tokens = 0,
                                      lastRefillInstant = 10\<rparr>, lastSeen = 10\<rparr>] ''192.0.2.7''
     = Some \<lparr>limiter = \<lparr>capacity = 4, refillRatePerSecond = 2, tokens = 0,
                         lastRefillInstant = 10\<rparr>, lastSeen = 10\<rparr> \<and>
   240 - lastSeen \<lparr>limiter = \<lparr>capacity = 4, refillRatePerSecond = 2, tokens = 0,
                               lastRefillInstant = 10\<rparr>, lastSeen = 10\<rparr> > 3 * minute \<and>
   enabled \<lparr>rps = 2, burst = 4, enabled = True\<rparr> \<and>
   sweep 240 [''192.0.2.7'' \<mapsto> \<lparr>limiter = \<lparr>capacity = 4, refillRatePerSecond = 2, tokens = 0,
                                      lastRefillInstant = 10\<rparr>, lastSeen = 10\<rparr>] ''192.0.2.7'' = None \<and>
   (\<exists>v cl1 cl2 c'.
      rateLimit \<lparr>rps = 2, burst = 4, enabled = True\<rparr> ''192.0.2.7'' 240
        (sweep 240 [''192.0.2.7'' \<mapsto> \<lparr>limiter = \<lparr>capacity = 4, refillRatePerSecond = 2,
                      tokens = 0, lastRefillInstant = 10\<rparr>, lastSeen = 10\<rparr>]) = Inr (v, cl1) \<and>
      rateLimit \<lparr>rps = 2, burst = 4, enabled = True\<rparr> ''192.0.2.7'' 240 Map.empty = Inr (v, cl2) \<and>
      cl1 ''192.0.2.7'' = Some c' \<and> cl2 ''192.0.2.7'' = Some c' \<and>
      limiter c' = snd (tryAdmit 240 (NewLimiter 2 4 240)) \<and>
      tokens (NewLimiter 2 4 240) = of_int 4 \<and>
      (1::int) \<le> 4 \<and> v = Allow \<and> tokens (limiter c') = of_int 4 - 1)"
  using idle_entry_is_evicted [of
      "[''192.0.2.7'' \<mapsto> \<lparr>limiter = \<lparr>capacity = 4, refillRatePerSecond = 2, tokens = 0,
                                      lastRefillInstant = 10\<rparr>, lastSeen = 10\<rparr>]"
      "''192.0.2.7''"
      "\<lparr>limiter = \<lparr>capacity = 4, refillRatePerSecond = 2, tokens = 0,
                         lastRefillInstant = 10\<rparr>, lastSeen = 10\<rparr>"
      240 "\<lparr>rps = 2, burst = 4, enabled = True\<rparr>" 240]
  by (simp add: minute_def)

subsection \<open>Checks at one instant, and one token refilled\<close>

lemma refill_idem: "refill t (refill t b) = refill t b"
  by (simp add: refill_def)

lemma tryAdmit_refill: "tryAdmit t (refill t b) = tryAdmit t b"
  by (simp add: tryAdmit_def refill_idem)

lemma checks_refill: "checks (replicate n t) (refill t b) = checks (replicate n t) b"
  by (cases n) (simp_all add: tryAdmit_refill)

lemma checks_immediate:
  assumes "lastRefillInstant b = t" "0 \<le> tokens b" "tokens b \<le> of_int (capacity b)"
  shows "checks (replicate n t) b =
           replicate (min n (nat \<lfloor>tokens b\<rfloor>)) True @ replicate (n - nat \<lfloor>tokens b\<rfloor>) False"
  using assms
proof (induction n arbitrary: b)
  case 0
  show ?case by simp
next
  case (Suc n)
  let ?b' = "snd (tryAdmit t b)"
  have rf: "tokens (refill t b) = tokens b"
    using Suc.prems by (simp add: tokens_refill)
  show ?case
  proof (cases "1 \<le> tokens b")
    case True
    have tok: "tokens ?b' = tokens b - 1"
      using True by (simp add: tryAdmit_tokens rf)
    have f: "1 \<le> \<lfloor>tokens b\<rfloor>"
      using True by (simp add: le_floor_iff)
    have "\<lfloor>tokens ?b'\<rfloor> = \<lfloor>tokens b\<rfloor> - 1"
      by (simp add: tok)
    with f have k: "nat \<lfloor>tokens b\<rfloor> = Suc (nat \<lfloor>tokens ?b'\<rfloor>)"
      by linarith
    have "checks (replicate n t) ?b' =
            replicate (min n (nat \<lfloor>tokens ?b'\<rfloor>)) True @ replicate (n - nat \<lfloor>tokens ?b'\<rfloor>) False"
      using Suc.prems True by (intro Suc.IH) (simp_all add: tok tryAdmit_fields)
    then show ?thesis
      using True by (simp add: k tryAdmit_fst rf)
  next
    case False
    have tok: "tokens ?b' = tokens b"
      using False by (simp add: tryAdmit_tokens rf)
    have k: "nat \<lfloor>tokens b\<rfloor> = 0"
      using False Suc.prems(2) by (simp add: floor_eq_iff)
    have "checks (replicate n t) ?b' =
            replicate (min n (nat \<lfloor>tokens ?b'\<rfloor>)) True @ replicate (n - nat \<lfloor>tokens ?b'\<rfloor>) False"
      using Suc.prems by (intro Suc.IH) (simp_all add: tok tryAdmit_fields)
    then show ?thesis
      using False by (simp add: tok k tryAdmit_fst rf)
  qed
qed

lemma floor_after_one_token:
  fixes T :: real and C :: int
  assumes "0 \<le> T" "T < of_int C"
  shows "nat \<lfloor>min (of_int C) (T + 1)\<rfloor> = Suc (nat \<lfloor>T\<rfloor>)"
proof -
  have "\<lfloor>T\<rfloor> < C"
    using assms(2) by (simp add: floor_less_iff)
  then have "of_int (\<lfloor>T\<rfloor> + 1) \<le> (of_int C :: real)"
    by (metis of_int_le_iff zless_imp_add1_zle)
  moreover have "of_int (\<lfloor>T\<rfloor> + 1) \<le> T + 1"
    by simp
  ultimately have lo: "of_int (\<lfloor>T\<rfloor> + 1) \<le> min (of_int C) (T + 1)"
    by simp
  have "min (of_int C) (T + 1) \<le> T + 1"
    by simp
  also have "T + 1 < of_int (\<lfloor>T\<rfloor> + 1) + 1"
    by simp linarith
  finally have "\<lfloor>min (of_int C) (T + 1)\<rfloor> = \<lfloor>T\<rfloor> + 1"
    using lo by (simp add: floor_eq_iff)
  moreover have "0 \<le> \<lfloor>T\<rfloor>"
    using assms(1) by simp
  ultimately show ?thesis
    by (simp add: nat_add_distrib)
qed

text \<open>
  C6: a client's bucket holds \<open>T\<close> tokens with \<open>0 \<le> T\<close> and \<open>T\<close> below the capacity
  (something was consumed), and its rate \<open>R\<close> is positive. Of \<open>n\<close> requests sent with no
  wait at all, the first \<open>\<lfloor>T\<rfloor>\<close> are allowed and the others denied: that is what the
  remaining tokens alone permit. Of \<open>n\<close> requests sent together after a wait of \<open>1 / R\<close>
  seconds, the first \<open>\<lfloor>T\<rfloor> + 1\<close> are allowed and the others denied: exactly one more.
\<close>

theorem one_more_after_one_over_rate:
  assumes "enabled cfg" "cl ip = Some c"
    and "0 < refillRatePerSecond (limiter c)"
    and "0 \<le> tokens (limiter c)" "tokens (limiter c) < of_int (capacity (limiter c))"
  shows "(\<exists>cl'. run cfg (replicate n (Request ip (lastRefillInstant (limiter c)))) cl =
            Inr (replicate (min n (nat \<lfloor>tokens (limiter c)\<rfloor>)) (ip, Allow) @
                 replicate (n - nat \<lfloor>tokens (limiter c)\<rfloor>) (ip, Deny), cl')) \<and>
         (\<exists>cl'. run cfg (replicate n (Request ip
                    (lastRefillInstant (limiter c) + 1 / refillRatePerSecond (limiter c)))) cl =
            Inr (replicate (min n (Suc (nat \<lfloor>tokens (limiter c)\<rfloor>))) (ip, Allow) @
                 replicate (n - Suc (nat \<lfloor>tokens (limiter c)\<rfloor>)) (ip, Deny), cl'))"
proof -
  let ?b = "limiter c"
  let ?t = "lastRefillInstant ?b"
  let ?u = "?t + 1 / refillRatePerSecond ?b"
  let ?k = "nat \<lfloor>tokens ?b\<rfloor>"
  let ?f = "\<lambda>ok. (ip, if ok then Allow else Deny)"
  have now: "checks (replicate n ?t) ?b = replicate (min n ?k) True @ replicate (n - ?k) False"
    using assms(4,5) by (intro checks_immediate) simp_all
  have tok: "tokens (refill ?u ?b) = min (of_int (capacity ?b)) (tokens ?b + 1)"
    using assms(3) by (simp add: tokens_refill)
  have "0 \<le> tokens (refill ?u ?b)"
    using assms(4,5) by (simp add: tok)
  moreover have "tokens (refill ?u ?b) \<le> of_int (capacity (refill ?u ?b))"
    by (simp add: tok refill_fields)
  ultimately have "checks (replicate n ?u) (refill ?u ?b) =
      replicate (min n (nat \<lfloor>tokens (refill ?u ?b)\<rfloor>)) True @
      replicate (n - nat \<lfloor>tokens (refill ?u ?b)\<rfloor>) False"
    by (intro checks_immediate) (simp_all add: refill_fields)
  then have later: "checks (replicate n ?u) ?b =
      replicate (min n (Suc ?k)) True @ replicate (n - Suc ?k) False"
    using floor_after_one_token [OF assms(4,5)] by (simp add: checks_refill tok)
  have "\<exists>cl'. run cfg (map (Request ip) (replicate n ?t)) cl =
          Inr (map ?f (checks (replicate n ?t) ?b), cl')"
    using assms(1,2) by (rule run_requests_known)
  moreover have "\<exists>cl'. run cfg (map (Request ip) (replicate n ?u)) cl =
          Inr (map ?f (checks (replicate n ?u) ?b), cl')"
    using assms(1,2) by (rule run_requests_known)
  ultimately show ?thesis
    by (simp add: now later)
qed

theorem one_more_after_one_over_rate_witness:
  "enabled \<lparr>rps = 2, burst = 4, enabled = True\<rparr> \<and>
   [''192.0.2.7'' \<mapsto> \<lparr>limiter = \<lparr>capacity = 4, refillRatePerSecond = 2, tokens = 0,
                                    lastRefillInstant = 10\<rparr>, lastSeen = 10\<rparr>] ''192.0.2.7''
     = Some \<lparr>limiter = \<lparr>capacity = 4, refillRatePerSecond = 2, tokens = 0,
                         lastRefillInstant = 10\<rparr>, lastSeen = 10\<rparr> \<and>
   0 < refillRatePerSecond \<lparr>capacity = 4, refillRatePerSecond = 2, tokens = 0,
                            lastRefillInstant = 10\<rparr> \<and>
   0 \<le> tokens \<lparr>capacity = 4, refillRatePerSecond = 2, tokens = 0, lastRefillInstant = 10\<rparr> \<and>
   tokens \<lparr>capacity = 4, refillRatePerSecond = 2, tokens = 0, lastRefillInstant = 10\<rparr>
     < of_int (capacity \<lparr>capacity = 4, refillRatePerSecond = 2, tokens = 0,
                          lastRefillInstant = 10\<rparr>) \<and>
   (\<exists>cl'. run \<lparr>rps = 2, burst = 4, enabled = True\<rparr> (replicate 3 (Request ''192.0.2.7'' 10))
             [''192.0.2.7'' \<mapsto> \<lparr>limiter = \<lparr>capacity = 4, refillRatePerSecond = 2, tokens = 0,
                                    lastRefillInstant = 10\<rparr>, lastSeen = 10\<rparr>]
           = Inr ([(''192.0.2.7'', Deny), (''192.0.2.7'', Deny), (''192.0.2.7'', Deny)], cl')) \<and>
   (\<exists>cl'. run \<lparr>rps = 2, burst = 4, enabled = True\<rparr> (replicate 3 (Request ''192.0.2.7'' (10 + 1 / 2)))
             [''192.0.2.7'' \<mapsto> \<lparr>limiter = \<lparr>capacity = 4, refillRatePerSecond = 2, tokens = 0,
                                    lastRefillInstant = 10\<rparr>, lastSeen = 10\<rparr>]
           = Inr ([(''192.0.2.7'', Allow), (''192.0.2.7'', Deny), (''192.0.2.7'', Deny)], cl'))"
  using one_more_after_one_over_rate [of "\<lparr>rps = 2, burst = 4, enabled = True\<rparr>"
      "[''192.0.2.7'' \<mapsto> \<lparr>limiter = \<lparr>capacity = 4, refillRatePerSecond = 2, tokens = 0,
                                    lastRefillInstant = 10\<rparr>, lastSeen = 10\<rparr>]"
      "''192.0.2.7''"
      "\<lparr>limiter = \<lparr>capacity = 4, refillRatePerSecond = 2, tokens = 0,
                         lastRefillInstant = 10\<rparr>, lastSeen = 10\<rparr>" 3]
  by (simp add: numeral_3_eq_3)

subsection \<open>Clients do not affect one another\<close>

lemma rateLimit_other:
  "rateLimit cfg ip t cl = Inr (v, cl') \<Longrightarrow> a \<noteq> ip \<Longrightarrow> cl' a = cl a"
  by (cases "enabled cfg") (auto simp: rateLimit_enabled rateLimit_disabled)

lemma bucket_for_cong: "cl a = cl0 a \<Longrightarrow> bucket_for cfg t cl a = bucket_for cfg t cl0 a"
  by (simp add: bucket_for_def)

lemma rateLimit_same:
  assumes "cl a = cl0 a" "rateLimit cfg a t cl = Inr (v, cl')" "rateLimit cfg a t cl0 = Inr (v0, cl0')"
  shows "v = v0 \<and> cl' a = cl0' a"
proof (cases "enabled cfg")
  case True
  then show ?thesis
    using assms bucket_for_cong [of cl a cl0 cfg t]
    by (auto simp: rateLimit_enabled)
next
  case False
  then show ?thesis
    using assms by (auto simp: rateLimit_disabled)
qed

lemma sweep_cong: "cl a = cl0 a \<Longrightarrow> sweep t cl a = sweep t cl0 a"
  by (simp add: sweep_def)

lemma run_Request_elim:
  assumes "run cfg (Request ip t # es) cl = Inr (vs, cl1)"
  obtains v cl' vs1 where "rateLimit cfg ip t cl = Inr (v, cl')"
    and "run cfg es cl' = Inr (vs1, cl1)" and "vs = (ip, v) # vs1"
  using assms by (auto split: sum.splits prod.splits)

lemma run_frame:
  assumes "A \<noteq> B"
  shows "cl B = cl0 B \<Longrightarrow> run cfg es cl = Inr (vs, cl1) \<Longrightarrow>
         run cfg (filter (\<lambda>e. \<not> from_ip A e) es) cl0 = Inr (vs0, cl2) \<Longrightarrow>
         filter (\<lambda>p. fst p = B) vs = filter (\<lambda>p. fst p = B) vs0 \<and> cl1 B = cl2 B"
proof (induction es arbitrary: cl cl0 vs vs0)
  case Nil
  then show ?case by simp
next
  case (Cons e es)
  show ?case
  proof (cases e)
    case (Sweep t)
    have "sweep t cl B = sweep t cl0 B"
      using Cons.prems(1) by (rule sweep_cong)
    then show ?thesis
      using Cons.IH [of "sweep t cl" "sweep t cl0" vs vs0] Cons.prems(2,3)
      by (simp add: Sweep)
  next
    case (Request ip t)
    from Cons.prems(2) obtain v cl' vs1 where
      h: "rateLimit cfg ip t cl = Inr (v, cl')" and r: "run cfg es cl' = Inr (vs1, cl1)"
      and vs: "vs = (ip, v) # vs1"
      unfolding Request by (rule run_Request_elim)
    show ?thesis
    proof (cases "ip = A")
      case True
      have "cl' B = cl0 B"
        using rateLimit_other [OF h, of B] assms True Cons.prems(1) by simp
      then show ?thesis
        using Cons.IH [of cl' cl0 vs1 vs0] r Cons.prems(3) assms True
        by (simp add: Request vs)
    next
      case False
      have "run cfg (Request ip t # filter (\<lambda>e. \<not> from_ip A e) es) cl0 = Inr (vs0, cl2)"
        using Cons.prems(3) False by (simp add: Request)
      then obtain v0 cl0' vs2 where
        h0: "rateLimit cfg ip t cl0 = Inr (v0, cl0')"
        and r0: "run cfg (filter (\<lambda>e. \<not> from_ip A e) es) cl0' = Inr (vs2, cl2)"
        and vs0: "vs0 = (ip, v0) # vs2"
        by (rule run_Request_elim)
      show ?thesis
      proof (cases "ip = B")
        case True
        have "v = v0 \<and> cl' B = cl0' B"
          using rateLimit_same [of cl B cl0 cfg t v cl' v0 cl0'] Cons.prems(1) h h0 True
          by simp
        then show ?thesis
          using Cons.IH [of cl' cl0' vs1 vs2] r r0 by (simp add: vs vs0)
      next
        case neq: False
        have "cl' B = cl0' B"
          using rateLimit_other [OF h, of B] rateLimit_other [OF h0, of B] neq Cons.prems(1)
          by simp
        then show ?thesis
          using Cons.IH [of cl' cl0' vs1 vs2] r r0 neq by (simp add: vs vs0)
      qed
    qed
  qed
qed

text \<open>
  C8: for two distinct addresses \<open>A\<close> and \<open>B\<close>. A request of \<open>A\<close> leaves the entry of \<open>B\<close>
  as it was, and neither its verdict nor the registry it leaves depends on what is
  stored under \<open>B\<close>: with any other content \<open>x\<close> under \<open>B\<close> the verdict is the same and
  the registry differs only under \<open>B\<close>. Over a whole trace of requests and sweeps, the
  verdicts of \<open>B\<close> in order, and the entry of \<open>B\<close> at the end, are what they are in the
  trace with every request of \<open>A\<close> taken out.
\<close>

theorem clients_are_independent:
  assumes "A \<noteq> B"
  shows "(\<exists>v cl1. rateLimit cfg A now cl = Inr (v, cl1) \<and> cl1 B = cl B \<and>
            rateLimit cfg A now (cl(B := x)) = Inr (v, cl1(B := x))) \<and>
         (\<exists>vs cl2 vs0 cl3.
            run cfg es cl = Inr (vs, cl2) \<and>
            run cfg (filter (\<lambda>e. \<not> from_ip A e) es) cl = Inr (vs0, cl3) \<and>
            filter (\<lambda>p. fst p = B) vs = filter (\<lambda>p. fst p = B) vs0 \<and> cl2 B = cl3 B)"
proof
  show "\<exists>v cl1. rateLimit cfg A now cl = Inr (v, cl1) \<and> cl1 B = cl B \<and>
          rateLimit cfg A now (cl(B := x)) = Inr (v, cl1(B := x))"
  proof (cases "enabled cfg")
    case True
    have "bucket_for cfg now (cl(B := x)) A = bucket_for cfg now cl A"
      using assms by (simp add: bucket_for_def)
    then show ?thesis
      using True assms by (simp add: rateLimit_enabled fun_upd_twist)
  next
    case False
    then show ?thesis
      by (simp add: rateLimit_disabled)
  qed
next
  obtain vs cl2 where r: "run cfg es cl = Inr (vs, cl2)"
    using run_total by blast
  obtain vs0 cl3 where r0: "run cfg (filter (\<lambda>e. \<not> from_ip A e) es) cl = Inr (vs0, cl3)"
    using run_total by blast
  show "\<exists>vs cl2 vs0 cl3.
          run cfg es cl = Inr (vs, cl2) \<and>
          run cfg (filter (\<lambda>e. \<not> from_ip A e) es) cl = Inr (vs0, cl3) \<and>
          filter (\<lambda>p. fst p = B) vs = filter (\<lambda>p. fst p = B) vs0 \<and> cl2 B = cl3 B"
    using run_frame [OF assms refl r r0] r r0 by blast
qed

theorem clients_are_independent_witness:
  "''192.0.2.7'' \<noteq> ''198.51.100.9'' \<and>
   (\<exists>v cl1. rateLimit \<lparr>rps = 2, burst = 1, enabled = True\<rparr> ''192.0.2.7'' 5 Map.empty = Inr (v, cl1) \<and>
      cl1 ''198.51.100.9'' = (Map.empty :: clients) ''198.51.100.9'' \<and>
      rateLimit \<lparr>rps = 2, burst = 1, enabled = True\<rparr> ''192.0.2.7'' 5
        (Map.empty(''198.51.100.9'' := Some \<lparr>limiter = NewLimiter 2 1 3, lastSeen = 3\<rparr>))
        = Inr (v, cl1(''198.51.100.9'' := Some \<lparr>limiter = NewLimiter 2 1 3, lastSeen = 3\<rparr>))) \<and>
   (\<exists>vs cl2 vs0 cl3.
      run \<lparr>rps = 2, burst = 1, enabled = True\<rparr>
        [Request ''192.0.2.7'' 1, Request ''192.0.2.7'' 1, Request ''198.51.100.9'' 1] Map.empty
        = Inr (vs, cl2) \<and>
      run \<lparr>rps = 2, burst = 1, enabled = True\<rparr>
        (filter (\<lambda>e. \<not> from_ip ''192.0.2.7'' e)
           [Request ''192.0.2.7'' 1, Request ''192.0.2.7'' 1, Request ''198.51.100.9'' 1]) Map.empty
        = Inr (vs0, cl3) \<and>
      filter (\<lambda>p. fst p = ''198.51.100.9'') vs = filter (\<lambda>p. fst p = ''198.51.100.9'') vs0 \<and>
      cl2 ''198.51.100.9'' = cl3 ''198.51.100.9'')"
  using clients_are_independent [of "''192.0.2.7''" "''198.51.100.9''"
      "\<lparr>rps = 2, burst = 1, enabled = True\<rparr>" 5 Map.empty
      "Some \<lparr>limiter = NewLimiter 2 1 3, lastSeen = 3\<rparr>"
      "[Request ''192.0.2.7'' 1, Request ''192.0.2.7'' 1, Request ''198.51.100.9'' 1]"]
  by simp

subsection \<open>The background loop\<close>

lemma evictor_no_result: "evictor w = Some u \<Longrightarrow> False"
  by (rule evictor.raw_induct [where P = "\<lambda>_ _. False"]) blast+

text \<open>
  C5, as the code has it: the background loop has no exit and takes no signal. From
  every state of the clock and the registry it never returns, so nothing in the loop
  ends it when the server shuts down; it runs until the process is gone.
\<close>

theorem evictor_never_returns: "evictor w = None"
  using evictor_no_result [of w] by (cases "evictor w") auto

text \<open>
  The loop started on the empty registry at instant 0, as \<^verbatim>\<open>rateLimit\<close> starts it, does
  not return.
\<close>

theorem evictor_terminates_counterexample: "\<not> (\<exists>u. evictor (0, Map.empty) = Some u)"
  using evictor_no_result [of "(0, Map.empty)"] by blast

end
